theory Spec2Isabelle
  imports Main "HOL-Library.Word"
begin

unbundle bit_operations_syntax

section \<open>Strings of code points\<close>

text \<open>
  A Python \<open>str\<close> is a sequence of Unicode code points, so it is modelled as a list of
  natural numbers (a HOL \<open>char\<close> is only a byte). \<open>ascii\<close> writes an ASCII literal.
\<close>

type_synonym ustring = "nat list"

definition ascii :: "string \<Rightarrow> ustring" where
  "ascii s = map of_char s"

section \<open>The part of Python's \<open>re\<close> module the filter uses\<close>

text \<open>
  \<open>re\<close> belongs to the Python standard library, not to the repository. It is modelled
  for the pattern syntax below: literals, backslash escapes of non-alphanumeric
  characters, \<open>.\<close>, character sets with ranges and negation, and the greedy
  repetitions \<open>*\<close>, \<open>+\<close> and \<open>?\<close>. A pattern that leaves this syntax is reported as
  \<open>NotModelled\<close> and nothing is said about it; a pattern on which \<open>re.compile\<close>
  raises \<open>re.error\<close> is reported as \<open>ReError\<close>.
\<close>

datatype re_error = ReError | NotModelled

datatype set_item = SetLiteral nat | SetRange nat nat

datatype atom = Literal nat | AnyChar | InSet bool "set_item list"

datatype repeat = Once | ZeroOrOne | ZeroOrMore | OneOrMore

type_synonym subpattern = "(atom \<times> repeat) list"

record Pattern =
  items :: subpattern
  ignorecase :: bool

definition is_ascii_alnum :: "nat \<Rightarrow> bool" where
  "is_ascii_alnum c = ((48 \<le> c \<and> c \<le> 57) \<or> (65 \<le> c \<and> c \<le> 90) \<or> (97 \<le> c \<and> c \<le> 122))"

text \<open>
  \<open>re.escape\<close> (Python 3.7 and later): a backslash before each of
  \<^verbatim>\<open>()[]{}?*+-|^$\.&~#\<close>, space, tab, newline, carriage return, vertical tab and form
  feed; every other character is kept.
\<close>

definition special_chars :: "nat list" where
  "special_chars = [40, 41, 91, 93, 123, 125, 63, 42, 43, 45, 124, 94, 36, 92, 46, 38, 126,
     35, 32, 9, 10, 13, 11, 12]"

definition escape_char :: "nat \<Rightarrow> ustring" where
  "escape_char c = (if c \<in> set special_chars then [92, c] else [c])"

definition re_escape :: "ustring \<Rightarrow> ustring" where
  "re_escape s = concat (map escape_char s)"

text \<open>
  The tokenizer of the parser: a backslash and the character after it are one token. A
  backslash at the end of the pattern is an error (\<open>bad escape (end of pattern)\<close>).
\<close>

datatype token = Chr nat | Esc nat

definition tok_cons :: "token \<Rightarrow> re_error + token list \<Rightarrow> re_error + token list" where
  "tok_cons t r = (case r of Inl e \<Rightarrow> Inl e | Inr ts \<Rightarrow> Inr (t # ts))"

fun tokenize :: "ustring \<Rightarrow> re_error + token list" where
  "tokenize [] = Inr []"
| "tokenize [c] = (if c = 92 then Inl ReError else Inr [Chr c])"
| "tokenize (c # e # rest) =
     (if c = 92 then tok_cons (Esc e) (tokenize rest)
      else tok_cons (Chr c) (tokenize (e # rest)))"

text \<open>
  The code point a token stands for as a literal. An escaped ASCII letter or digit (a
  category such as \<^verbatim>\<open>\d\<close>, a numeric escape, a group reference, or an error) is outside
  the model; any other escaped character stands for itself.
\<close>

fun code_of :: "token \<Rightarrow> re_error + nat" where
  "code_of (Chr c) = Inr c"
| "code_of (Esc e) = (if is_ascii_alnum e then Inl NotModelled else Inr e)"

text \<open>
  The body of a character set, after \<open>[\<close> and an optional \<open>^\<close>, up to the closing
  \<open>]\<close>. A \<open>]\<close> in first position is a member; \<open>lo-hi\<close> is a range, an error when
  \<open>hi < lo\<close>; a \<open>-\<close> before the closing \<open>]\<close> is a member; a set that is not closed
  is an error.
\<close>

fun parse_set :: "set_item list \<Rightarrow> token list \<Rightarrow> re_error + (set_item list \<times> token list)" where
  "parse_set acc [] = Inl ReError"
| "parse_set acc (t # ts) =
     (if t = Chr 93 \<and> acc \<noteq> [] then Inr (acc, ts)
      else
        (case code_of t of
           Inl e \<Rightarrow> Inl e
         | Inr lo \<Rightarrow>
             (case ts of
                [] \<Rightarrow> parse_set (acc @ [SetLiteral lo]) ts
              | [d] \<Rightarrow> if d = Chr 45 then Inl ReError else parse_set (acc @ [SetLiteral lo]) ts
              | d # t2 # ts2 \<Rightarrow>
                  if d = Chr 45 then
                    (if t2 = Chr 93 then Inr (acc @ [SetLiteral lo, SetLiteral 45], ts2)
                     else
                       (case code_of t2 of
                          Inl e \<Rightarrow> Inl e
                        | Inr hi \<Rightarrow>
                            if hi < lo then Inl ReError
                            else parse_set (acc @ [SetRange lo hi]) ts2))
                  else parse_set (acc @ [SetLiteral lo]) ts)))"

lemma parse_set_shorter:
  "parse_set acc ts = Inr (its, rest) \<Longrightarrow> length rest < length ts"
proof (induction acc ts rule: parse_set.induct)
  case (1 acc)
  then show ?case by simp
next
  case (2 acc t ts)
  then show ?case
    by (auto split: if_splits sum.splits list.splits simp del: parse_set.simps(2)
             simp add: parse_set.simps(2)[of acc t ts] less_Suc_eq)
qed

text \<open>
  The parser, item by item. \<open>[\<close> opens a character set (negated by a \<open>^\<close> right
  after it); \<open>*\<close>, \<open>+\<close> and \<open>?\<close> repeat the item before them: with no item before
  them the pattern is an error (\<open>nothing to repeat\<close>), as it is when that item is
  already repeated (\<open>multiple repeat\<close>). A repetition followed by \<open>?\<close> (lazy) or \<open>+\<close>
  (possessive in some versions, an error in others), groups, alternation, counted
  repetition and the anchors are outside the model. Every other character is a literal.
\<close>

definition repeat_of :: "nat \<Rightarrow> repeat" where
  "repeat_of c = (if c = 63 then ZeroOrOne else if c = 42 then ZeroOrMore else OneOrMore)"

definition set_start :: "token list \<Rightarrow> bool \<times> token list" where
  "set_start ts = (case ts of [] \<Rightarrow> (False, ts) | n # ts' \<Rightarrow> if n = Chr 94 then (True, ts') else (False, ts))"

lemma set_start_length: "set_start ts = (b, ts') \<Longrightarrow> length ts' \<le> length ts"
  by (auto simp: set_start_def split: list.splits if_splits)

function parse :: "subpattern \<Rightarrow> token list \<Rightarrow> re_error + subpattern" where
  "parse acc [] = Inr acc"
| "parse acc (Esc e # ts) =
     (if is_ascii_alnum e then Inl NotModelled else parse (acc @ [(Literal e, Once)]) ts)"
| "parse acc (Chr c # ts) =
     (if c = 91 then
        (case parse_set [] (snd (set_start ts)) of
           Inl e \<Rightarrow> Inl e
         | Inr (its, rest) \<Rightarrow> parse (acc @ [(InSet (fst (set_start ts)) its, Once)]) rest)
      else if c = 42 \<or> c = 43 \<or> c = 63 then
        (if acc = [] then Inl ReError
         else if snd (last acc) \<noteq> Once then Inl ReError
         else if ts \<noteq> [] \<and> (hd ts = Chr 63 \<or> hd ts = Chr 43) then Inl NotModelled
         else parse (butlast acc @ [(fst (last acc), repeat_of c)]) ts)
      else if c = 46 then parse (acc @ [(AnyChar, Once)]) ts
      else if c = 40 \<or> c = 41 \<or> c = 124 \<or> c = 123 \<or> c = 94 \<or> c = 36 then Inl NotModelled
      else parse (acc @ [(Literal c, Once)]) ts)"
  by pat_completeness auto
termination
proof (relation "measure (\<lambda>(acc, ts). length ts)", goal_cases)
  case 1
  show ?case by simp
next
  case (2 acc e ts)
  then show ?case by simp
next
  case (3 acc c ts x its rest)
  have "length rest < length (snd (set_start ts))"
    using 3 parse_set_shorter[of "[]" "snd (set_start ts)" its rest] by simp
  moreover have "length (snd (set_start ts)) \<le> length ts"
    using set_start_length[of ts "fst (set_start ts)" "snd (set_start ts)"] by simp
  ultimately show ?case by simp
next
  case (4 acc c ts)
  then show ?case by simp
next
  case (5 acc c ts)
  then show ?case by simp
next
  case (6 acc c ts)
  then show ?case by simp
qed

definition re_compile :: "ustring \<Rightarrow> bool \<Rightarrow> re_error + Pattern" where
  "re_compile pattern icase =
     (case tokenize pattern of
        Inl e \<Rightarrow> Inl e
      | Inr ts \<Rightarrow>
          (case parse [] ts of
             Inl e \<Rightarrow> Inl e
           | Inr its \<Rightarrow> Inr \<lparr>items = its, ignorecase = icase\<rparr>))"

subsection \<open>Matching\<close>

text \<open>
  \<open>ci x c\<close> is the engine's comparison of a subject code point \<open>x\<close> with a pattern code
  point \<open>c\<close> under \<open>re.IGNORECASE\<close> (in CPython, equality of the lower-case mappings,
  extended by a table of further case equivalences). It belongs to the Unicode tables of
  the interpreter and is a parameter of the model. Without the flag the comparison is
  equality. \<open>.\<close> accepts every character but the newline.
\<close>

definition chr_eq :: "(nat \<Rightarrow> nat \<Rightarrow> bool) \<Rightarrow> bool \<Rightarrow> nat \<Rightarrow> nat \<Rightarrow> bool" where
  "chr_eq ci icase x c = (if icase then ci x c else x = c)"

fun set_item_accepts :: "(nat \<Rightarrow> nat \<Rightarrow> bool) \<Rightarrow> bool \<Rightarrow> nat \<Rightarrow> set_item \<Rightarrow> bool" where
  "set_item_accepts ci icase x (SetLiteral c) = chr_eq ci icase x c"
| "set_item_accepts ci icase x (SetRange lo hi) = list_ex (chr_eq ci icase x) [lo..<Suc hi]"

fun accepts :: "(nat \<Rightarrow> nat \<Rightarrow> bool) \<Rightarrow> bool \<Rightarrow> atom \<Rightarrow> nat \<Rightarrow> bool" where
  "accepts ci icase (Literal c) x = chr_eq ci icase x c"
| "accepts ci icase AnyChar x = (x \<noteq> 10)"
| "accepts ci icase (InSet negate its) x = (list_ex (set_item_accepts ci icase x) its \<noteq> negate)"

text \<open>
  The backtracking matcher at one position of the subject: the number of characters of
  the first match the engine finds there, a repetition taking as many characters as it
  can before giving them back one at a time.
\<close>

fun match_here :: "(atom \<Rightarrow> nat \<Rightarrow> bool) \<Rightarrow> subpattern \<Rightarrow> ustring \<Rightarrow> nat option" where
  "match_here A [] s = Some 0"
| "match_here A ((a, Once) # r) [] = None"
| "match_here A ((a, Once) # r) (x # xs) =
     (if A a x then map_option Suc (match_here A r xs) else None)"
| "match_here A ((a, ZeroOrOne) # r) [] = match_here A r []"
| "match_here A ((a, ZeroOrOne) # r) (x # xs) =
     (if A a x then
        (case match_here A r xs of Some n \<Rightarrow> Some (Suc n) | None \<Rightarrow> match_here A r (x # xs))
      else match_here A r (x # xs))"
| "match_here A ((a, ZeroOrMore) # r) [] = match_here A r []"
| "match_here A ((a, ZeroOrMore) # r) (x # xs) =
     (if A a x then
        (case match_here A ((a, ZeroOrMore) # r) xs of
           Some n \<Rightarrow> Some (Suc n)
         | None \<Rightarrow> match_here A r (x # xs))
      else match_here A r (x # xs))"
| "match_here A ((a, OneOrMore) # r) [] = None"
| "match_here A ((a, OneOrMore) # r) (x # xs) =
     (if A a x then map_option Suc (match_here A ((a, ZeroOrMore) # r) xs) else None)"

text \<open>
  \<open>Pattern.search\<close>: the first position of the subject, from the left, where the
  pattern matches; the result is the span of the match, or \<open>None\<close>.
\<close>

datatype Match = Match (span_start: nat) (span_end: nat)

fun search_from :: "(atom \<Rightarrow> nat \<Rightarrow> bool) \<Rightarrow> subpattern \<Rightarrow> nat \<Rightarrow> ustring \<Rightarrow> Match option" where
  "search_from A p i [] = (case match_here A p [] of Some n \<Rightarrow> Some (Match i (i + n)) | None \<Rightarrow> None)"
| "search_from A p i (x # xs) =
     (case match_here A p (x # xs) of
        Some n \<Rightarrow> Some (Match i (i + n))
      | None \<Rightarrow> search_from A p (Suc i) xs)"

definition re_search :: "(nat \<Rightarrow> nat \<Rightarrow> bool) \<Rightarrow> Pattern \<Rightarrow> ustring \<Rightarrow> Match option" where
  "re_search ci p s = search_from (accepts ci (ignorecase p)) (items p) 0 s"

text \<open>
  \<open>Pattern.sub("", s)\<close>: every non-empty match, found from the left and not
  overlapping, is removed; an empty match replaces nothing. (In the syntax of the
  model, the first match at a position is empty only when no match there is not.)
\<close>

function sub_empty :: "(atom \<Rightarrow> nat \<Rightarrow> bool) \<Rightarrow> subpattern \<Rightarrow> ustring \<Rightarrow> ustring" where
  "sub_empty A p [] = []"
| "sub_empty A p (x # xs) =
     (case match_here A p (x # xs) of
        None \<Rightarrow> x # sub_empty A p xs
      | Some n \<Rightarrow> if n = 0 then x # sub_empty A p xs else sub_empty A p (drop (n - 1) xs))"
  by pat_completeness auto
termination
  by (relation "measure (\<lambda>(A, p, s). length s)") auto

definition re_sub_empty :: "(nat \<Rightarrow> nat \<Rightarrow> bool) \<Rightarrow> Pattern \<Rightarrow> ustring \<Rightarrow> ustring" where
  "re_sub_empty ci p s = sub_empty (accepts ci (ignorecase p)) (items p) s"

section \<open>The confusables oracle\<close>

text \<open>
  \<open>confusables.is_confusable(text, greedy=True)\<close> belongs to the package
  \<open>confusable_homoglyphs\<close>, not to the repository: it is a parameter of the model. It
  returns one group for each character of the text that has look-alikes: the character
  and the strings (the field \<open>c\<close> of each homoglyph) that look like it. With no such
  character it returns \<open>False\<close>, which the filter tests like the empty list.
\<close>

record group =
  character :: ustring
  homoglyphs :: "ustring list"

type_synonym confusables = "ustring \<Rightarrow> group list"

section \<open>The filter (cogs/filter/filter.py)\<close>

text \<open>
  Modelled from the spec: \<open>futaba.str_builder.StringBuilder\<close> is not among the
  sources. It is an accumulator of text whose pieces are joined in the order written
  (spec 4.1, step 5): \<open>write\<close> appends, \<open>str\<close> reads the text, \<open>clear\<close> empties it.
\<close>

type_synonym StringBuilder = ustring

definition sb_write :: "StringBuilder \<Rightarrow> ustring \<Rightarrow> StringBuilder" where
  "sb_write sb s = sb @ s"

definition sb_str :: "StringBuilder \<Rightarrow> ustring" where
  "sb_str sb = sb"

definition sb_clear :: "StringBuilder \<Rightarrow> StringBuilder" where
  "sb_clear sb = []"

text \<open>\<open>UNICODE_SPACES_REGEX\<close>: the set of the code points listed in the source, in its order.\<close>

definition UNICODE_SPACES :: ustring where
  "UNICODE_SPACES =
     [0x0020, 0x00a0, 0x1680,
      0x180e, 0x2000, 0x2001,
      0x2002, 0x2003, 0x2004,
      0x2005, 0x2006, 0x2006,
      0x2007, 0x2008, 0x2009,
      0x200a, 0x200b, 0x202f,
      0x205f, 0x3000, 0xfeff]"

definition UNICODE_SPACES_REGEX :: "re_error + Pattern" where
  "UNICODE_SPACES_REGEX = re_compile ([91] @ UNICODE_SPACES @ [93]) False"

record Filter =
  filter_text :: ustring
  filter_regex :: Pattern

text \<open>
  \<open>Filter.build_regex\<close>. The first loop writes, for each group, the set of the escaped
  character and its escaped homoglyphs, and stores it under the character; the second
  loop writes, for each character of the text, the stored set, or the character itself.
\<close>

definition write_group :: "group \<Rightarrow> StringBuilder \<Rightarrow> StringBuilder" where
  "write_group g pattern =
     (let pattern = sb_write pattern [91];
          pattern = sb_write pattern (re_escape (character g));
          pattern = foldl (\<lambda>pattern homoglyph. sb_write pattern (re_escape homoglyph))
                      pattern (homoglyphs g)
      in sb_write pattern [93])"

fun build_chars ::
  "group list \<Rightarrow> (ustring \<rightharpoonup> ustring) \<Rightarrow> StringBuilder \<Rightarrow> (ustring \<rightharpoonup> ustring) \<times> StringBuilder" where
  "build_chars [] chars pattern = (chars, pattern)"
| "build_chars (g # gs) chars pattern =
     (let pattern = write_group g pattern;
          chars = chars(character g \<mapsto> sb_str pattern);
          pattern = sb_clear pattern
      in build_chars gs chars pattern)"

definition chars_get :: "(ustring \<rightharpoonup> ustring) \<Rightarrow> ustring \<Rightarrow> ustring \<Rightarrow> ustring" where
  "chars_get chars k d = (case chars k of Some v \<Rightarrow> v | None \<Rightarrow> d)"

definition build_regex :: "ustring \<Rightarrow> group list \<Rightarrow> ustring" where
  "build_regex text groups =
     (case build_chars groups Map.empty [] of
        (chars, pattern) \<Rightarrow>
          sb_str (foldl (\<lambda>pattern char. sb_write pattern (chars_get chars [char] [char]))
                    pattern text))"

text \<open>\<open>Filter.__init__\<close>: the error of \<open>re.compile\<close>, when it raises, leaves the constructor.\<close>

definition Filter_init :: "confusables \<Rightarrow> ustring \<Rightarrow> re_error + Filter" where
  "Filter_init is_confusable text =
     (let groups = is_confusable text;
          pattern = (if groups \<noteq> [] then build_regex text groups else re_escape text)
      in case re_compile pattern True of
           Inl e \<Rightarrow> Inl e
         | Inr regex \<Rightarrow> Inr \<lparr>filter_text = text, filter_regex = regex\<rparr>)"

text \<open>
  \<open>Filter.matches\<close>: the pattern is searched in the content and in the content without
  the characters of \<open>UNICODE_SPACES_REGEX\<close>; a \<open>Match\<close> object is true, \<open>None\<close> is
  false.
\<close>

definition matches :: "(nat \<Rightarrow> nat \<Rightarrow> bool) \<Rightarrow> Filter \<Rightarrow> ustring \<Rightarrow> re_error + bool" where
  "matches ci self content =
     (case UNICODE_SPACES_REGEX of
        Inl e \<Rightarrow> Inl e
      | Inr spaces \<Rightarrow>
          (let contents = [content, re_sub_empty ci spaces content]
           in Inr (list_ex (\<lambda>m. m \<noteq> None) (map (re_search ci (filter_regex self)) contents))))"

text \<open>
  \<open>Filter.__hash__\<close> and \<open>Filter.__eq__\<close>. The hash of a string is the interpreter's
  (it changes from one process to the next): a parameter. Python's integers are
  unbounded and \<open>^\<close> is the exclusive or of their two's complement forms, as \<open>XOR\<close> on
  \<open>int\<close> is. The operands of \<open>__eq__\<close> are any Python objects.
\<close>

definition Filter_hash :: "(ustring \<Rightarrow> int) \<Rightarrow> Filter \<Rightarrow> int" where
  "Filter_hash str_hash self = str_hash (filter_text self) XOR 0x2C6F024ED28"

datatype pyobject = FilterObj Filter | StrObj ustring | IntObj int | NoneObj

fun isinstance_Filter :: "pyobject \<Rightarrow> bool" where
  "isinstance_Filter (FilterObj f) = True"
| "isinstance_Filter x = False"

fun Filter_eq :: "pyobject \<Rightarrow> pyobject \<Rightarrow> bool" where
  "Filter_eq (FilterObj self) (FilterObj other) = (filter_text self = filter_text other)"
| "Filter_eq self other = False"

section \<open>Instances for concrete inputs\<close>

text \<open>
  On ASCII code points the comparison under \<open>re.IGNORECASE\<close> is equality of the ASCII
  lower-case forms. \<open>ascii_ci\<close> is that comparison, and equality elsewhere: it agrees
  with the interpreter on the subjects used below (ASCII text and characters without
  case).
\<close>

definition ascii_lower :: "nat \<Rightarrow> nat" where
  "ascii_lower c = (if 65 \<le> c \<and> c \<le> 90 then c + 32 else c)"

definition ascii_ci :: "nat \<Rightarrow> nat \<Rightarrow> bool" where
  "ascii_ci x c = (ascii_lower x = ascii_lower c)"

text \<open>An oracle that knows no confusable character.\<close>

definition no_confusables :: confusables where
  "no_confusables text = []"

text \<open>
  An oracle that knows one look-alike for each of \<open>a\<close>, \<open>b\<close> and \<open>c\<close> (the Cyrillic
  letters U+0430, U+042C and U+0441), and none for any other character. Like the
  library, it reports each character of the text once, in the order of the text.
\<close>

definition abc_table :: "nat \<Rightarrow> ustring list" where
  "abc_table ch = (if ch = 97 then [[0x430]] else if ch = 98 then [[0x42C]]
                   else if ch = 99 then [[0x441]] else [])"

definition abc_oracle :: confusables where
  "abc_oracle text =
     map (\<lambda>ch. \<lparr>character = [ch], homoglyphs = abc_table ch\<rparr>)
       (filter (\<lambda>ch. abc_table ch \<noteq> []) (rev (remdups (rev text))))"

section \<open>Lemmas about the engine\<close>

lemma tokenize_plain: "92 \<notin> set s \<Longrightarrow> tokenize s = Inr (map Chr s)"
  by (induction s rule: tokenize.induct) (auto simp: tok_cons_def)

text \<open>A member of a set that is neither the closing bracket nor the sign of a range.\<close>

fun member_code :: "token \<Rightarrow> nat" where
  "member_code (Chr c) = c"
| "member_code (Esc e) = e"

fun plain_member :: "token \<Rightarrow> bool" where
  "plain_member (Chr c) = (c \<noteq> 93 \<and> c \<noteq> 45)"
| "plain_member (Esc e) = (\<not> is_ascii_alnum e)"

lemma code_of_plain: "plain_member t \<Longrightarrow> code_of t = Inr (member_code t)"
  by (cases t) auto

lemma parse_set_step:
  assumes "plain_member t" "ts \<noteq> []" "hd ts \<noteq> Chr 45"
  shows "parse_set acc (t # ts) = parse_set (acc @ [SetLiteral (member_code t)]) ts"
proof -
  from assms(2) obtain d ts' where ts: "ts = d # ts'" by (cases ts) auto
  with assms(3) have d: "d \<noteq> Chr 45" by simp
  have t93: "t \<noteq> Chr 93" using assms(1) by auto
  show ?thesis
    unfolding ts parse_set.simps(2)[of acc t "d # ts'"]
    using d t93 code_of_plain[OF assms(1)] by (cases ts') simp_all
qed

lemma parse_set_plain:
  "list_all plain_member ts \<Longrightarrow> acc \<noteq> [] \<or> ts \<noteq> [] \<Longrightarrow>
   parse_set acc (ts @ Chr 93 # rest) = Inr (acc @ map (\<lambda>t. SetLiteral (member_code t)) ts, rest)"
proof (induction ts arbitrary: acc)
  case Nil
  then show ?case by simp
next
  case (Cons t ts)
  have pm: "plain_member t" and rest: "list_all plain_member ts" using Cons.prems(1) by simp_all
  have hd: "hd (ts @ Chr 93 # rest) \<noteq> Chr 45"
  proof (cases ts)
    case Nil
    then show ?thesis by simp
  next
    case (Cons u us)
    with rest have "plain_member u" by simp
    then have "u \<noteq> Chr 45" by auto
    with Cons show ?thesis by simp
  qed
  have "parse_set acc ((t # ts) @ Chr 93 # rest) =
        parse_set (acc @ [SetLiteral (member_code t)]) (ts @ Chr 93 # rest)"
    using parse_set_step[OF pm _ hd, of acc] by simp
  also have "\<dots> = Inr ((acc @ [SetLiteral (member_code t)]) @ map (\<lambda>t. SetLiteral (member_code t)) ts, rest)"
    by (rule Cons.IH[OF rest]) simp
  finally show ?case by simp
qed

lemma UNICODE_SPACES_REGEX_compiled:
  "UNICODE_SPACES_REGEX =
     Inr \<lparr>items = [(InSet False (map SetLiteral UNICODE_SPACES), Once)], ignorecase = False\<rparr>"
proof -
  have no_bs: "92 \<notin> set ([91] @ UNICODE_SPACES @ [93])"
    by (simp add: UNICODE_SPACES_def)
  have plain: "list_all plain_member (map Chr UNICODE_SPACES)"
    by (simp add: UNICODE_SPACES_def)
  have ne: "map Chr UNICODE_SPACES \<noteq> []"
    by (simp add: UNICODE_SPACES_def)
  have start: "set_start (map Chr UNICODE_SPACES @ [Chr 93]) = (False, map Chr UNICODE_SPACES @ [Chr 93])"
    by (simp add: UNICODE_SPACES_def set_start_def)
  have members: "parse_set [] (map Chr UNICODE_SPACES @ Chr 93 # []) =
        Inr ([] @ map (\<lambda>t. SetLiteral (member_code t)) (map Chr UNICODE_SPACES), [])"
    using plain ne by (intro parse_set_plain) simp_all
  have "parse [] (Chr 91 # map Chr UNICODE_SPACES @ [Chr 93]) =
        Inr [(InSet False (map SetLiteral UNICODE_SPACES), Once)]"
    using members by (simp add: start comp_def)
  then show ?thesis
    unfolding UNICODE_SPACES_REGEX_def re_compile_def tokenize_plain[OF no_bs]
    by simp
qed

lemma literal_set_accepts:
  "list_ex (set_item_accepts ci False x) (map SetLiteral cs) = (x \<in> set cs)"
  by (induction cs) (auto simp: chr_eq_def)

lemma sub_empty_single:
  "sub_empty A [(a, Once)] s = filter (\<lambda>x. \<not> A a x) s"
  by (induction s) simp_all

text \<open>In the words of the spec: the content with the whitespace-homoglyphs removed.\<close>

definition without_spaces :: "ustring \<Rightarrow> ustring" where
  "without_spaces content = filter (\<lambda>x. x \<notin> set UNICODE_SPACES) content"

lemma strip_spaces:
  "UNICODE_SPACES_REGEX = Inr spaces \<Longrightarrow> re_sub_empty ci spaces content = without_spaces content"
  by (auto simp: UNICODE_SPACES_REGEX_compiled re_sub_empty_def sub_empty_single
        literal_set_accepts without_spaces_def)

text \<open>
  In the words of the spec: the pattern finds a match anywhere within the string, that
  is, at some position of it.
\<close>

definition found_in :: "(nat \<Rightarrow> nat \<Rightarrow> bool) \<Rightarrow> Pattern \<Rightarrow> ustring \<Rightarrow> bool" where
  "found_in ci p s =
     (\<exists>k\<le>length s. match_here (accepts ci (ignorecase p)) (items p) (drop k s) \<noteq> None)"

lemma search_from_found:
  "(search_from A p i s \<noteq> None) = (\<exists>k\<le>length s. match_here A p (drop k s) \<noteq> None)"
proof (induction s arbitrary: i)
  case Nil
  then show ?case by (cases "match_here A p []") simp_all
next
  case (Cons x xs)
  have "(\<exists>k\<le>length (x # xs). match_here A p (drop k (x # xs)) \<noteq> None) =
        (match_here A p (x # xs) \<noteq> None \<or> (\<exists>k\<le>length xs. match_here A p (drop k xs) \<noteq> None))"
    (is "?L = ?R")
  proof
    assume ?L
    then obtain k where k: "k \<le> length (x # xs)" "match_here A p (drop k (x # xs)) \<noteq> None"
      by blast
    show ?R
    proof (cases k)
      case 0
      with k show ?thesis by simp
    next
      case (Suc j)
      with k show ?thesis by auto
    qed
  next
    assume ?R
    then show ?L
    proof
      assume "match_here A p (x # xs) \<noteq> None"
      then have "match_here A p (drop 0 (x # xs)) \<noteq> None" by simp
      then show ?L by blast
    next
      assume "\<exists>k\<le>length xs. match_here A p (drop k xs) \<noteq> None"
      then obtain k where "k \<le> length xs" "match_here A p (drop k xs) \<noteq> None" by blast
      then have "Suc k \<le> length (x # xs)" "match_here A p (drop (Suc k) (x # xs)) \<noteq> None"
        by simp_all
      then show ?L by blast
    qed
  qed
  moreover have "(search_from A p i (x # xs) \<noteq> None) =
        (match_here A p (x # xs) \<noteq> None \<or> search_from A p (Suc i) xs \<noteq> None)"
    by (cases "match_here A p (x # xs)") simp_all
  ultimately show ?case using Cons.IH[of "Suc i"] by blast
qed

lemma re_search_found: "(re_search ci p s \<noteq> None) = found_in ci p s"
  unfolding re_search_def found_in_def by (rule search_from_found)

lemma matches_eq:
  "matches ci self content =
     Inr (re_search ci (filter_regex self) content \<noteq> None \<or>
          re_search ci (filter_regex self) (without_spaces content) \<noteq> None)"
proof -
  obtain spaces where sp: "UNICODE_SPACES_REGEX = Inr spaces"
    using UNICODE_SPACES_REGEX_compiled by blast
  have "re_sub_empty ci spaces content = without_spaces content"
    using sp by (rule strip_spaces)
  then show ?thesis
    unfolding matches_def sp by (simp add: Let_def)
qed

lemma tokenize_backslash: "tokenize (92 # e # rest) = tok_cons (Esc e) (tokenize rest)"
  by simp

lemma tokenize_other: "c \<noteq> 92 \<Longrightarrow> tokenize (c # rest) = tok_cons (Chr c) (tokenize rest)"
  by (cases rest) (simp_all add: tok_cons_def)

text \<open>The token of a character of the text after \<open>re.escape\<close>.\<close>

definition escape_token :: "nat \<Rightarrow> token" where
  "escape_token c = (if c \<in> set special_chars then Esc c else Chr c)"

lemma tokenize_escape: "tokenize (re_escape s) = Inr (map escape_token s)"
proof (induction s)
  case Nil
  then show ?case by (simp add: re_escape_def)
next
  case (Cons c s)
  have rest: "tokenize (re_escape s) = Inr (map escape_token s)" using Cons.IH .
  show ?case
  proof (cases "c \<in> set special_chars")
    case True
    then have "re_escape (c # s) = 92 # c # re_escape s"
      by (simp add: re_escape_def escape_char_def)
    then have "tokenize (re_escape (c # s)) = tok_cons (Esc c) (tokenize (re_escape s))"
      by (simp only: tokenize_backslash)
    moreover have "escape_token c = Esc c" using True by (simp add: escape_token_def)
    ultimately show ?thesis by (simp add: rest tok_cons_def)
  next
    case False
    then have c: "c \<noteq> 92" by (auto simp: special_chars_def)
    have "re_escape (c # s) = c # re_escape s"
      using False by (simp add: re_escape_def escape_char_def)
    then have "tokenize (re_escape (c # s)) = tok_cons (Chr c) (tokenize (re_escape s))"
      by (simp only: tokenize_other[OF c])
    moreover have "escape_token c = Chr c" using False by (simp add: escape_token_def)
    ultimately show ?thesis by (simp add: rest tok_cons_def)
  qed
qed

lemma special_not_alnum: "c \<in> set special_chars \<Longrightarrow> \<not> is_ascii_alnum c"
  by (auto simp: special_chars_def is_ascii_alnum_def)

lemma parse_literal_token:
  "parse acc (escape_token c # ts) = parse (acc @ [(Literal c, Once)]) ts"
proof (cases "c \<in> set special_chars")
  case True
  then show ?thesis by (simp add: escape_token_def special_not_alnum)
next
  case False
  then have "c \<noteq> 91 \<and> c \<noteq> 42 \<and> c \<noteq> 43 \<and> c \<noteq> 63 \<and> c \<noteq> 46 \<and> c \<noteq> 40 \<and> c \<noteq> 41
      \<and> c \<noteq> 124 \<and> c \<noteq> 123 \<and> c \<noteq> 94 \<and> c \<noteq> 36"
    by (auto simp: special_chars_def)
  with False show ?thesis by (simp add: escape_token_def)
qed

lemma parse_escaped:
  "parse acc (map escape_token s) = Inr (acc @ map (\<lambda>c. (Literal c, Once)) s)"
proof (induction s arbitrary: acc)
  case Nil
  then show ?case by simp
next
  case (Cons c s)
  show ?case
    using Cons.IH[of "acc @ [(Literal c, Once)]"]
    by (simp add: parse_literal_token del: parse.simps)
qed

lemma compile_escaped:
  "re_compile (re_escape s) icase =
     Inr \<lparr>items = map (\<lambda>c. (Literal c, Once)) s, ignorecase = icase\<rparr>"
  by (simp add: re_compile_def tokenize_escape parse_escaped del: parse.simps)

text \<open>
  In the words of the spec: the phrase occurs in the string as a case-insensitive
  substring (\<open>ci_substring\<close>), that is, the string is \<open>u @ w @ v\<close> with \<open>w\<close> equal
  to the phrase up to case, character by character (lemma \<open>ci_substring_iff\<close>).
\<close>

fun ci_prefix :: "(nat \<Rightarrow> nat \<Rightarrow> bool) \<Rightarrow> ustring \<Rightarrow> ustring \<Rightarrow> bool" where
  "ci_prefix ci [] s = True"
| "ci_prefix ci (c # p) [] = False"
| "ci_prefix ci (c # p) (x # s) = (ci x c \<and> ci_prefix ci p s)"

fun ci_substring :: "(nat \<Rightarrow> nat \<Rightarrow> bool) \<Rightarrow> ustring \<Rightarrow> ustring \<Rightarrow> bool" where
  "ci_substring ci p [] = ci_prefix ci p []"
| "ci_substring ci p (x # s) = (ci_prefix ci p (x # s) \<or> ci_substring ci p s)"

lemma match_literals:
  "(match_here (accepts ci True) (map (\<lambda>c. (Literal c, Once)) p) s \<noteq> None) = ci_prefix ci p s"
  by (induction ci p s rule: ci_prefix.induct) (simp_all add: chr_eq_def)

lemma search_literals:
  "(search_from (accepts ci True) (map (\<lambda>c. (Literal c, Once)) p) i s \<noteq> None) = ci_substring ci p s"
proof (induction s arbitrary: i)
  case Nil
  show ?case using match_literals[of ci p "[]"]
    by (cases "match_here (accepts ci True) (map (\<lambda>c. (Literal c, Once)) p) []") simp_all
next
  case (Cons x xs)
  show ?case using match_literals[of ci p "x # xs"] Cons.IH[of "Suc i"]
    by (cases "match_here (accepts ci True) (map (\<lambda>c. (Literal c, Once)) p) (x # xs)") simp_all
qed

lemma ci_prefix_iff: "ci_prefix ci p s = (\<exists>w v. s = w @ v \<and> list_all2 ci w p)"
proof (induction ci p s rule: ci_prefix.induct)
  case (1 ci s)
  then show ?case by simp
next
  case (2 ci c p)
  then show ?case by simp
next
  case (3 ci c p x s)
  show ?case
  proof
    assume "ci_prefix ci (c # p) (x # s)"
    then have "ci x c" and "ci_prefix ci p s" by simp_all
    then obtain w v where "s = w @ v" "list_all2 ci w p" using 3 by blast
    with \<open>ci x c\<close> have "x # s = (x # w) @ v \<and> list_all2 ci (x # w) (c # p)" by simp
    then show "\<exists>w v. x # s = w @ v \<and> list_all2 ci w (c # p)" by blast
  next
    assume "\<exists>w v. x # s = w @ v \<and> list_all2 ci w (c # p)"
    then obtain w v where wv: "x # s = w @ v" "list_all2 ci w (c # p)" by blast
    then obtain y w' where w: "w = y # w'" "ci y c" "list_all2 ci w' p"
      by (auto simp: list_all2_Cons2)
    with wv have "x = y" "s = w' @ v" by simp_all
    with w 3 show "ci_prefix ci (c # p) (x # s)" by auto
  qed
qed

lemma ci_substring_iff: "ci_substring ci p s = (\<exists>u w v. s = u @ w @ v \<and> list_all2 ci w p)"
proof (induction s)
  case Nil
  then show ?case by (simp add: ci_prefix_iff)
next
  case (Cons x s)
  show ?case
  proof
    assume "ci_substring ci p (x # s)"
    then consider "ci_prefix ci p (x # s)" | "ci_substring ci p s" by auto
    then show "\<exists>u w v. x # s = u @ w @ v \<and> list_all2 ci w p"
    proof cases
      case 1
      then obtain w v where "x # s = w @ v" "list_all2 ci w p" unfolding ci_prefix_iff by blast
      then have "x # s = [] @ w @ v \<and> list_all2 ci w p" by simp
      then show ?thesis by blast
    next
      case 2
      then obtain u w v where "s = u @ w @ v" "list_all2 ci w p" using Cons.IH by blast
      then have "x # s = (x # u) @ w @ v \<and> list_all2 ci w p" by simp
      then show ?thesis by blast
    qed
  next
    assume "\<exists>u w v. x # s = u @ w @ v \<and> list_all2 ci w p"
    then obtain u w v where uwv: "x # s = u @ w @ v" "list_all2 ci w p" by blast
    show "ci_substring ci p (x # s)"
    proof (cases u)
      case Nil
      with uwv have "ci_prefix ci p (x # s)" unfolding ci_prefix_iff by auto
      then show ?thesis by simp
    next
      case (Cons y u')
      with uwv have "s = u' @ w @ v" by simp
      with uwv(2) have "ci_substring ci p s" using Cons.IH by blast
      then show ?thesis by simp
    qed
  qed
qed

lemma Filter_init_fallback:
  "is_confusable p = [] \<Longrightarrow>
   Filter_init is_confusable p =
     Inr \<lparr>filter_text = p,
          filter_regex = \<lparr>items = map (\<lambda>c. (Literal c, Once)) p, ignorecase = True\<rparr>\<rparr>"
  by (simp add: Filter_init_def compile_escaped)

lemma re_search_literals:
  "(re_search ci \<lparr>items = map (\<lambda>c. (Literal c, Once)) p, ignorecase = True\<rparr> s \<noteq> None) =
     ci_substring ci p s"
  unfolding re_search_def by (simp only: Pattern.simps search_literals)

lemma fallback_matches:
  "matches ci \<lparr>filter_text = p,
       filter_regex = \<lparr>items = map (\<lambda>c. (Literal c, Once)) p, ignorecase = True\<rparr>\<rparr> content =
     Inr (ci_substring ci p content \<or> ci_substring ci p (without_spaces content))"
  unfolding matches_eq by (simp only: Filter.simps re_search_literals)

lemmas eval_defs = ascii_def ascii_ci_def ascii_lower_def without_spaces_def UNICODE_SPACES_def
  no_confusables_def

lemma build_chars_cleared: "snd (build_chars gs chars []) = []"
  by (induction gs arbitrary: chars) (simp_all add: Let_def sb_clear_def)

lemma build_regex_empty: "build_regex [] groups = []"
proof -
  obtain chars pattern where bc: "build_chars groups Map.empty [] = (chars, pattern)"
    by (cases "build_chars groups Map.empty []")
  then have "pattern = []" using build_chars_cleared[of groups Map.empty] by simp
  with bc show ?thesis by (simp add: build_regex_def sb_str_def)
qed

lemma xor_salt_changes: "(k::int) \<noteq> 0 \<Longrightarrow> h XOR k \<noteq> h"
proof
  assume k: "k \<noteq> 0" and "h XOR k = h"
  then have "h XOR (h XOR k) = h XOR h" by simp
  then have "k = 0" by (simp add: xor.assoc[symmetric])
  with k show False by simp
qed

lemma Filter_init_text: "Filter_init is_confusable t = Inr m \<Longrightarrow> filter_text m = t"
  by (auto simp: Filter_init_def Let_def split: sum.splits)

lemmas build_defs = ascii_def abc_oracle_def abc_table_def build_regex_def write_group_def
  sb_write_def sb_str_def sb_clear_def re_escape_def escape_char_def special_chars_def chars_get_def
  Let_def

lemmas compile_defs = Filter_init_def re_compile_def tok_cons_def set_start_def repeat_of_def
  is_ascii_alnum_def

lemma init_abc_ab:
  "Filter_init abc_oracle (ascii ''ab'') =
     Inr \<lparr>filter_text = [97, 98],
          filter_regex =
            \<lparr>items = [(InSet False [SetLiteral 97, SetLiteral 1072], Once),
                      (InSet False [SetLiteral 98, SetLiteral 1068], Once)],
             ignorecase = True\<rparr>\<rparr>"
  by (simp add: build_defs compile_defs)

lemma init_none_ab:
  "Filter_init no_confusables (ascii ''ab'') =
     Inr \<lparr>filter_text = [97, 98],
          filter_regex = \<lparr>items = [(Literal 97, Once), (Literal 98, Once)], ignorecase = True\<rparr>\<rparr>"
  using Filter_init_fallback[of no_confusables "ascii ''ab''"] by (simp add: eval_defs)

lemmas match_defs = matches_eq re_search_def without_spaces_def UNICODE_SPACES_def
  ascii_def ascii_ci_def ascii_lower_def chr_eq_def







section \<open>The claims\<close>

text \<open>
  C5. For every matcher and every content, \<open>matches\<close> returns a boolean and never an
  error, and the boolean is true exactly when the pattern finds a match somewhere in
  one of two candidates: the content as it is, or the content with every
  whitespace-homoglyph removed.
\<close>

theorem matches_searches_both_candidates:
  "matches ci m content =
     Inr (found_in ci (filter_regex m) content \<or>
          found_in ci (filter_regex m) (without_spaces content))"
  unfolding matches_eq re_search_found by (rule refl)

text \<open>
  C2, as amended. For every phrase for which the oracle reports no confusable character,
  construction succeeds and the matcher matches exactly the contents that contain the
  phrase as a case-insensitive substring, either as they are or once their
  whitespace-homoglyphs are removed.
\<close>

theorem fallback_matches_substring:
  assumes "is_confusable p = []"
  shows "\<exists>m. Filter_init is_confusable p = Inr m \<and>
           matches ci m content =
             Inr (ci_substring ci p content \<or> ci_substring ci p (without_spaces content))"
proof -
  let ?m = "\<lparr>filter_text = p,
             filter_regex = \<lparr>items = map (\<lambda>c. (Literal c, Once)) p, ignorecase = True\<rparr>\<rparr>"
  have "Filter_init is_confusable p = Inr ?m"
    using assms by (rule Filter_init_fallback)
  moreover have "matches ci ?m content =
      Inr (ci_substring ci p content \<or> ci_substring ci p (without_spaces content))"
    unfolding matches_eq by (simp only: Filter.simps re_search_literals)
  ultimately show ?thesis by blast
qed

theorem fallback_matches_substring_witness:
  "no_confusables (ascii ''ab'') = [] \<and>
   (\<exists>m. Filter_init no_confusables (ascii ''ab'') = Inr m \<and>
        matches ascii_ci m (ascii ''xAb'') = Inr True)"
  using fallback_matches_substring[of no_confusables "ascii ''ab''" ascii_ci "ascii ''xAb''"]
  by (simp add: eval_defs)

text \<open>
  C2 as stated fails: with no confusable character, the phrase \<open>ab\<close> matches the content
  \<open>a b\<close>, which does not contain it, because the second candidate is the content
  without its spaces.
\<close>

theorem whitespace_stripping_counterexample:
  "no_confusables (ascii ''ab'') = [] \<and>
   Filter_init no_confusables (ascii ''ab'') =
     Inr \<lparr>filter_text = ascii ''ab'',
          filter_regex = \<lparr>items = [(Literal 97, Once), (Literal 98, Once)], ignorecase = True\<rparr>\<rparr> \<and>
   matches ascii_ci
     \<lparr>filter_text = ascii ''ab'',
      filter_regex = \<lparr>items = [(Literal 97, Once), (Literal 98, Once)], ignorecase = True\<rparr>\<rparr>
     (ascii ''a b'') = Inr True \<and>
   \<not> ci_substring ascii_ci (ascii ''ab'') (ascii ''a b'')"
proof -
  have "Filter_init no_confusables (ascii ''ab'') =
     Inr \<lparr>filter_text = ascii ''ab'',
          filter_regex = \<lparr>items = [(Literal 97, Once), (Literal 98, Once)], ignorecase = True\<rparr>\<rparr>"
    using Filter_init_fallback[of no_confusables "ascii ''ab''"] by (simp add: eval_defs)
  moreover have "matches ascii_ci
     \<lparr>filter_text = ascii ''ab'',
      filter_regex = \<lparr>items = [(Literal 97, Once), (Literal 98, Once)], ignorecase = True\<rparr>\<rparr>
     (ascii ''a b'') = Inr True"
    using fallback_matches[of ascii_ci "ascii ''ab''" "ascii ''a b''"] by (simp add: eval_defs)
  moreover have "\<not> ci_substring ascii_ci (ascii ''ab'') (ascii ''a b'')"
    by (simp add: eval_defs)
  ultimately show ?thesis by (simp add: no_confusables_def)
qed

text \<open>
  C8. Construction accepts the empty phrase, whatever the oracle answers: the pattern of
  the matcher is empty, and the matcher matches every content, the empty one included.
\<close>

theorem empty_phrase_matches_everything:
  "\<exists>m. Filter_init is_confusable [] = Inr m \<and> items (filter_regex m) = [] \<and>
        matches ci m content = Inr True \<and> matches ci m [] = Inr True"
proof -
  let ?m = "\<lparr>filter_text = [], filter_regex = \<lparr>items = [], ignorecase = True\<rparr>\<rparr>"
  have "Filter_init is_confusable [] = Inr ?m"
  proof -
    have "(if is_confusable [] \<noteq> [] then build_regex [] (is_confusable []) else re_escape []) = []"
      by (simp add: build_regex_empty re_escape_def)
    then show ?thesis by (simp add: Filter_init_def Let_def re_compile_def)
  qed
  moreover have "matches ci ?m s = Inr True" for s
    unfolding matches_eq re_search_def by (cases s) simp_all
  ultimately show ?thesis by simp
qed

text \<open>
  C9. Equality with an operand that is not a matcher is \<open>False\<close>: the method tests the
  type of the operand before it reads its text.
\<close>

theorem Filter_eq_other_type:
  "\<not> isinstance_Filter x \<Longrightarrow> Filter_eq (FilterObj m) x = False"
  by (cases x) simp_all

theorem Filter_eq_other_type_witness:
  "\<not> isinstance_Filter (StrObj (ascii ''ab'')) \<and>
   Filter_eq (FilterObj \<lparr>filter_text = ascii ''ab'',
       filter_regex = \<lparr>items = [(Literal 97, Once), (Literal 98, Once)], ignorecase = True\<rparr>\<rparr>)
     (StrObj (ascii ''ab'')) = False"
  using Filter_eq_other_type[of "StrObj (ascii ''ab'')"]
  by simp

text \<open>
  C7. Identity is the text alone. Two matchers are equal exactly when their texts are
  equal, whatever their compiled patterns are; matchers built from the same text, even
  by different oracles, are equal and have the same hash; the hash is the hash of the
  text combined by exclusive or with the constant \<open>0x2C6F024ED28\<close>, and so it is never
  the hash of the text itself.
\<close>

theorem Filter_identity_is_text:
  "(Filter_eq (FilterObj m1) (FilterObj m2) \<longleftrightarrow> filter_text m1 = filter_text m2) \<and>
   (Filter_init oracle1 t = Inr m1 \<and> Filter_init oracle2 t = Inr m2 \<longrightarrow>
      Filter_eq (FilterObj m1) (FilterObj m2) \<and> Filter_hash str_hash m1 = Filter_hash str_hash m2) \<and>
   Filter_hash str_hash m1 = str_hash (filter_text m1) XOR 0x2C6F024ED28 \<and>
   Filter_hash str_hash m1 \<noteq> str_hash (filter_text m1)"
proof -
  have "Filter_hash str_hash m1 \<noteq> str_hash (filter_text m1)"
    unfolding Filter_hash_def by (rule xor_salt_changes) simp
  moreover have "Filter_eq (FilterObj m1) (FilterObj m2) \<and>
      Filter_hash str_hash m1 = Filter_hash str_hash m2"
    if "Filter_init oracle1 t = Inr m1" "Filter_init oracle2 t = Inr m2"
    using that[THEN Filter_init_text] by (simp add: Filter_hash_def)
  ultimately show ?thesis by (simp add: Filter_hash_def)
qed

theorem Filter_identity_is_text_witness:
  "Filter_init abc_oracle (ascii ''ab'') =
     Inr \<lparr>filter_text = [97, 98],
          filter_regex =
            \<lparr>items = [(InSet False [SetLiteral 97, SetLiteral 1072], Once),
                      (InSet False [SetLiteral 98, SetLiteral 1068], Once)],
             ignorecase = True\<rparr>\<rparr> \<and>
   Filter_init no_confusables (ascii ''ab'') =
     Inr \<lparr>filter_text = [97, 98],
          filter_regex = \<lparr>items = [(Literal 97, Once), (Literal 98, Once)], ignorecase = True\<rparr>\<rparr> \<and>
   Filter_eq
     (FilterObj \<lparr>filter_text = [97, 98],
          filter_regex =
            \<lparr>items = [(InSet False [SetLiteral 97, SetLiteral 1072], Once),
                      (InSet False [SetLiteral 98, SetLiteral 1068], Once)],
             ignorecase = True\<rparr>\<rparr>)
     (FilterObj \<lparr>filter_text = [97, 98],
          filter_regex = \<lparr>items = [(Literal 97, Once), (Literal 98, Once)], ignorecase = True\<rparr>\<rparr>) \<and>
   Filter_hash (\<lambda>s. int (sum_list s))
     \<lparr>filter_text = [97, 98],
          filter_regex =
            \<lparr>items = [(InSet False [SetLiteral 97, SetLiteral 1072], Once),
                      (InSet False [SetLiteral 98, SetLiteral 1068], Once)],
             ignorecase = True\<rparr>\<rparr> =
   Filter_hash (\<lambda>s. int (sum_list s))
     \<lparr>filter_text = [97, 98],
          filter_regex = \<lparr>items = [(Literal 97, Once), (Literal 98, Once)], ignorecase = True\<rparr>\<rparr>"
  using Filter_identity_is_text[of
      "\<lparr>filter_text = [97, 98],
          filter_regex =
            \<lparr>items = [(InSet False [SetLiteral 97, SetLiteral 1072], Once),
                      (InSet False [SetLiteral 98, SetLiteral 1068], Once)],
             ignorecase = True\<rparr>\<rparr>"
      "\<lparr>filter_text = [97, 98],
          filter_regex = \<lparr>items = [(Literal 97, Once), (Literal 98, Once)], ignorecase = True\<rparr>\<rparr>"
      abc_oracle "ascii ''ab''" no_confusables "\<lambda>s. int (sum_list s)"]
    init_abc_ab init_none_ab
  by simp




text \<open>
  C1 fails on the code, in the branch taken when the oracle returns groups: a character
  of the phrase that has no group is written as it is (\<open>chars.get(char, char)\<close>), not in
  its escaped form. With look-alikes known for \<open>a\<close>, \<open>b\<close> and \<open>c\<close> only, the pattern of
  \<open>a.b*c\<close> keeps \<open>.\<close> and \<open>*\<close> as pattern syntax, where \<open>re.escape\<close> writes
  \<^verbatim>\<open>\.\<close> and \<^verbatim>\<open>\*\<close>: the matcher does not match \<open>a.b*c\<close> and matches \<open>axbbc\<close>.
\<close>

theorem metacharacters_not_escaped:
  "re_escape (ascii ''a.b*c'') = [97, 92, 46, 98, 92, 42, 99] \<and>
   build_regex (ascii ''a.b*c'') (abc_oracle (ascii ''a.b*c'')) =
     [91, 97, 1072, 93] @ ascii ''.'' @ [91, 98, 1068, 93] @ ascii ''*'' @ [91, 99, 1089, 93] \<and>
   (\<exists>m. Filter_init abc_oracle (ascii ''a.b*c'') = Inr m \<and>
        matches ascii_ci m (ascii ''a.b*c'') = Inr False \<and>
        matches ascii_ci m (ascii ''axbbc'') = Inr True)"
proof -
  let ?m = "\<lparr>filter_text = [97, 46, 98, 42, 99],
          filter_regex =
            \<lparr>items =
               [(InSet False [SetLiteral 97, SetLiteral 1072], Once),
                (AnyChar, Once),
                (InSet False [SetLiteral 98, SetLiteral 1068], ZeroOrMore),
                (InSet False [SetLiteral 99, SetLiteral 1089], Once)],
             ignorecase = True\<rparr>\<rparr>"
  have "re_escape (ascii ''a.b*c'') = [97, 92, 46, 98, 92, 42, 99]"
    by (simp add: build_defs)
  moreover have "build_regex (ascii ''a.b*c'') (abc_oracle (ascii ''a.b*c'')) =
     [91, 97, 1072, 93] @ ascii ''.'' @ [91, 98, 1068, 93] @ ascii ''*'' @ [91, 99, 1089, 93]"
    by (simp add: build_defs)
  moreover have "Filter_init abc_oracle (ascii ''a.b*c'') = Inr ?m"
    by (simp add: build_defs compile_defs)
  moreover have "matches ascii_ci ?m (ascii ''a.b*c'') = Inr False"
    by (simp add: match_defs)
  moreover have "matches ascii_ci ?m (ascii ''axbbc'') = Inr True"
    by (simp add: match_defs)
  ultimately show ?thesis by blast
qed

text \<open>
  C4 fails on the code, for the same reason: with a look-alike known for \<open>a\<close> only, the
  pattern of the phrase \<open>a[\<close> ends with an unescaped \<open>[\<close>, and \<open>re.compile\<close> raises
  \<open>re.error\<close> (unterminated character set) in the constructor.
\<close>

theorem unterminated_set_raises:
  "build_regex (ascii ''a['') (abc_oracle (ascii ''a['')) = [91, 97, 1072, 93, 91] \<and>
   Filter_init abc_oracle (ascii ''a['') = Inl ReError"
  by (simp add: build_defs compile_defs)

text \<open>
  C6 fails on the code, for the same reason: with a look-alike known for \<open>a\<close> only, the
  pattern of the phrase \<open>a[x]\<close> ends with the character set \<open>[x]\<close>; the matcher matches
  \<open>ax\<close> and not its own phrase.
\<close>

theorem phrase_not_matched_by_own_matcher:
  "build_regex (ascii ''a[x]'') (abc_oracle (ascii ''a[x]'')) = [91, 97, 1072, 93] @ ascii ''[x]'' \<and>
   (\<exists>m. Filter_init abc_oracle (ascii ''a[x]'') = Inr m \<and>
        matches ascii_ci m (ascii ''a[x]'') = Inr False \<and>
        matches ascii_ci m (ascii ''ax'') = Inr True)"
proof -
  let ?m = "\<lparr>filter_text = [97, 91, 120, 93],
          filter_regex =
            \<lparr>items =
               [(InSet False [SetLiteral 97, SetLiteral 1072], Once),
                (InSet False [SetLiteral 120], Once)],
             ignorecase = True\<rparr>\<rparr>"
  have "build_regex (ascii ''a[x]'') (abc_oracle (ascii ''a[x]'')) = [91, 97, 1072, 93] @ ascii ''[x]''"
    by (simp add: build_defs)
  moreover have "Filter_init abc_oracle (ascii ''a[x]'') = Inr ?m"
    by (simp add: build_defs compile_defs)
  moreover have "matches ascii_ci ?m (ascii ''a[x]'') = Inr False"
    by (simp add: match_defs)
  moreover have "matches ascii_ci ?m (ascii ''ax'') = Inr True"
    by (simp add: match_defs)
  ultimately show ?thesis by blast
qed


end
